theory Spec2Isabelle
  imports Complex_Main "HOL-Library.AList"
begin

section \<open>RAID drive selector: the model of \<open>raid_selector.py\<close>\<close>

text \<open>
  Python's \<open>float\<close> values (unit capacities, unit prices and the totals computed from
  them) are modelled as \<open>real\<close>, Python's unbounded \<open>int\<close> as \<open>int\<close>. The model
  therefore covers finite numbers with exact arithmetic; NaN, infinities and rounding are
  outside it.
\<close>

subsection \<open>Errors\<close>

text \<open>
  The exceptions the code can raise: the \<open>ValueError\<close> of \<open>Combo.total_capacity\<close>
  (with the offending level), the \<open>ValueError\<close> of the builtin \<open>min\<close> on an empty
  list, and the \<open>IndexError\<close> of \<open>tightest_combos[0]\<close> on an empty list.
\<close>

datatype error = UnknownRaidLevel string | MinOfEmpty | IndexError

subsection \<open>The dataclass \<open>Combo\<close>\<close>

record combo =
  drive_count :: int
  unit_capacity :: real
  unit_price :: real
  raid_level :: string

text \<open>The constructor call \<open>Combo(drive_count, unit_capacity, unit_price, raid_level)\<close>.\<close>

abbreviation Combo :: "int \<Rightarrow> real \<Rightarrow> real \<Rightarrow> string \<Rightarrow> combo" where
  "Combo dc ucap uprice lvl \<equiv>
     \<lparr>drive_count = dc, unit_capacity = ucap, unit_price = uprice, raid_level = lvl\<rparr>"

definition total_capacity :: "combo \<Rightarrow> error + real" where
  "total_capacity c =
     (if raid_level c \<in> set [''RAID0''] then
        Inr (unit_capacity c * of_int (drive_count c))
      else if raid_level c \<in> set [''RAID1''] then
        Inr (unit_capacity c)
      else if raid_level c \<in> set [''RAID3'', ''RADI4'', ''RAID5''] then
        Inr (unit_capacity c * of_int (drive_count c - 1))
      else if raid_level c \<in> set [''RAID6''] then
        Inr (unit_capacity c * of_int (drive_count c - 2))
      else Inl (UnknownRaidLevel (raid_level c)))"

definition total_price :: "combo \<Rightarrow> real" where
  "total_price c = unit_price c * of_int (drive_count c)"

subsection \<open>The dictionary \<open>all_combos\<close>\<close>

text \<open>
  A Python \<open>dict\<close> keeps its keys unique and iterates in insertion order: an association
  list whose update replaces the value of a present key in place and appends an absent
  key at the end, which is what \<open>AList.update\<close> does. The price catalogue
  \<open>prices\<close> is such a dictionary too, read only through \<open>prices.items()\<close>: the list
  of its (unit capacity, unit price) pairs in iteration order.
\<close>

type_synonym combo_dict = "(real \<times> combo list) list"

definition dict_contains :: "real \<Rightarrow> combo_dict \<Rightarrow> bool" where
  "dict_contains k d = (k \<in> set (map fst d))"

definition dict_setitem :: "real \<Rightarrow> combo list \<Rightarrow> combo_dict \<Rightarrow> combo_dict" where
  "dict_setitem k v d = AList.update k v d"

text \<open>\<open>d[k].append(c)\<close> for a key that is present.\<close>

definition dict_append :: "real \<Rightarrow> combo \<Rightarrow> combo_dict \<Rightarrow> combo_dict" where
  "dict_append k c d = AList.map_entry k (\<lambda>cs. cs @ [c]) d"

subsection \<open>Generation: the nested loops of lines 77 to 83\<close>

text \<open>The body of the inner loop for one combination.\<close>

definition add_combo :: "combo_dict \<Rightarrow> combo \<Rightarrow> error + combo_dict" where
  "add_combo all_combos c =
     (case total_capacity c of
        Inl e \<Rightarrow> Inl e
      | Inr cap \<Rightarrow>
          Inr (dict_append cap c
                (if \<not> dict_contains cap all_combos then dict_setitem cap [] all_combos
                 else all_combos)))"

text \<open>The inner loop over \<open>prices.items()\<close> for one drive count.\<close>

fun generate_inner ::
  "combo_dict \<Rightarrow> int \<Rightarrow> (real \<times> real) list \<Rightarrow> string \<Rightarrow> error + combo_dict" where
  "generate_inner all_combos dc [] lvl = Inr all_combos"
| "generate_inner all_combos dc ((ucap, uprice) # ps) lvl =
     (case add_combo all_combos (Combo dc ucap uprice lvl) of
        Inl e \<Rightarrow> Inl e
      | Inr all_combos' \<Rightarrow> generate_inner all_combos' dc ps lvl)"

text \<open>The outer loop over the drive counts.\<close>

fun generate_outer ::
  "combo_dict \<Rightarrow> int list \<Rightarrow> (real \<times> real) list \<Rightarrow> string \<Rightarrow> error + combo_dict" where
  "generate_outer all_combos [] prices lvl = Inr all_combos"
| "generate_outer all_combos (dc # dcs) prices lvl =
     (case generate_inner all_combos dc prices lvl of
        Inl e \<Rightarrow> Inl e
      | Inr all_combos' \<Rightarrow> generate_outer all_combos' dcs prices lvl)"

subsection \<open>Ranking: the loop of lines 85 to 95\<close>

text \<open>Python's \<open>min\<close> of a list: an error on the empty list.\<close>

definition py_min :: "('a::linorder) list \<Rightarrow> error + 'a" where
  "py_min xs = (case xs of [] \<Rightarrow> Inl MinOfEmpty | x # ys \<Rightarrow> Inr (fold min ys x))"

text \<open>
  The loop body for one bucket. \<open>continue\<close> leaves the list as it is. The guard
  \<open>len(ranked_combos) > 0\<close> protects the read of \<open>ranked_combos[-1]\<close>.
\<close>

definition rank_step :: "combo list \<Rightarrow> real \<times> combo list \<Rightarrow> error + combo list" where
  "rank_step ranked_combos bucket =
     (case bucket of (cap, combos) \<Rightarrow>
        (case py_min (map total_price combos) of
           Inl e \<Rightarrow> Inl e
         | Inr min_price \<Rightarrow>
             if length ranked_combos > 0 \<and> min_price > total_price (last ranked_combos)
             then Inr ranked_combos
             else
               (let cheapest_combos = filter (\<lambda>c. total_price c = min_price) combos in
                case py_min (map drive_count cheapest_combos) of
                  Inl e \<Rightarrow> Inl e
                | Inr min_dc \<Rightarrow>
                    (let tightest_combos =
                           filter (\<lambda>c. drive_count c = min_dc) cheapest_combos in
                     case tightest_combos of
                       [] \<Rightarrow> Inl IndexError
                     | c # _ \<Rightarrow> Inr (ranked_combos @ [c])))))"

fun rank_loop :: "combo list \<Rightarrow> combo_dict \<Rightarrow> error + combo list" where
  "rank_loop ranked_combos [] = Inr ranked_combos"
| "rank_loop ranked_combos (b # bs) =
     (case rank_step ranked_combos b of
        Inl e \<Rightarrow> Inl e
      | Inr ranked_combos' \<Rightarrow> rank_loop ranked_combos' bs)"

text \<open>
  \<open>sorted(all_combos.items(), reverse=True)\<close>: the items are (key, list) pairs whose
  keys are pairwise different, so the pairs are ordered by their keys alone, largest
  first.
\<close>

definition sorted_items_reverse :: "combo_dict \<Rightarrow> combo_dict" where
  "sorted_items_reverse d = rev (sort_key fst d)"

subsection \<open>The function \<open>rank_combinations\<close>\<close>

text \<open>\<open>range(min_drive_count, max_drive_count + 1)\<close> is the list \<open>[mn..mx]\<close>.\<close>

definition rank_combinations ::
  "(real \<times> real) list \<Rightarrow> int \<Rightarrow> int \<Rightarrow> string \<Rightarrow> error + combo list" where
  "rank_combinations prices min_drive_count max_drive_count lvl =
     (case generate_outer [] [min_drive_count..max_drive_count] prices lvl of
        Inl e \<Rightarrow> Inl e
      | Inr all_combos \<Rightarrow> rank_loop [] (sorted_items_reverse all_combos))"

subsection \<open>The candidates in the order the loops construct them\<close>

text \<open>
  The combinations that lines 77 to 79 construct, in that order: drive counts outermost,
  catalogue entries innermost. The loops are shown below to be one pass of
  \<open>add_combo\<close> over this list.
\<close>

definition candidates :: "(real \<times> real) list \<Rightarrow> int list \<Rightarrow> string \<Rightarrow> combo list" where
  "candidates prices dcs lvl =
     concat (map (\<lambda>dc. map (\<lambda>(ucap, uprice). Combo dc ucap uprice lvl) prices) dcs)"

fun add_all :: "combo_dict \<Rightarrow> combo list \<Rightarrow> error + combo_dict" where
  "add_all all_combos [] = Inr all_combos"
| "add_all all_combos (c # cs) =
     (case add_combo all_combos c of
        Inl e \<Rightarrow> Inl e
      | Inr all_combos' \<Rightarrow> add_all all_combos' cs)"

text \<open>The candidates of one total capacity, in construction order.\<close>

definition bucket_of :: "combo list \<Rightarrow> real \<Rightarrow> combo list" where
  "bucket_of cs cap = filter (\<lambda>c. total_capacity c = Inr cap) cs"

text \<open>
  What the dictionary holds after the loops have added the combinations \<open>cs\<close>: its keys
  are pairwise different, and a key is present exactly when some combination has that
  total capacity, bound to the list of those combinations in construction order.
\<close>

definition groups :: "combo_dict \<Rightarrow> combo list \<Rightarrow> bool" where
  "groups d cs \<longleftrightarrow>
     distinct (map fst d) \<and>
     (\<forall>k. map_of d k = (if bucket_of cs k = [] then None else Some (bucket_of cs k)))"

subsection \<open>Notions used to state the properties of the ranking loop\<close>

text \<open>
  The buckets still to be processed: keys strictly decreasing, and every combination of
  a bucket has the bucket's key as its total capacity.
\<close>

definition well_keyed :: "combo_dict \<Rightarrow> bool" where
  "well_keyed bs \<longleftrightarrow>
     sorted_wrt (\<lambda>x y. fst y < fst x) bs \<and>
     (\<forall>(k, b)\<in>set bs. \<forall>c\<in>set b. total_capacity c = Inr k)"

text \<open>Every accepted combination has a larger total capacity than every remaining bucket.\<close>

definition above :: "combo list \<Rightarrow> combo_dict \<Rightarrow> bool" where
  "above acc bs \<longleftrightarrow>
     (\<forall>a\<in>set acc. \<exists>ka. total_capacity a = Inr ka \<and> (\<forall>(k, b)\<in>set bs. k < ka))"

definition cap_gt :: "combo \<Rightarrow> combo \<Rightarrow> bool" where
  "cap_gt a b \<longleftrightarrow>
     (\<exists>ka kb. total_capacity a = Inr ka \<and> total_capacity b = Inr kb \<and> kb < ka)"

definition price_ge :: "combo \<Rightarrow> combo \<Rightarrow> bool" where
  "price_ge a b \<longleftrightarrow> total_price b \<le> total_price a"

text \<open>
  The selection rule in the words of the specification: \<open>r\<close> is a combination of the
  bucket \<open>b\<close> of minimum total price, of minimum drive count among those of that price,
  and the first of the bucket among those of that price and drive count.
\<close>

definition selected_from :: "combo list \<Rightarrow> combo \<Rightarrow> bool" where
  "selected_from b r \<longleftrightarrow>
     r \<in> set b \<and>
     (\<forall>x\<in>set b. total_price r \<le> total_price x) \<and>
     (\<forall>x\<in>set b. total_price x = total_price r \<longrightarrow> drive_count r \<le> drive_count x) \<and>
     (\<exists>pre post. b = pre @ r # post \<and>
        (\<forall>x\<in>set pre. \<not> (total_price x = total_price r \<and> drive_count x = drive_count r)))"


section \<open>Properties\<close>

lemmas model_defs = rank_combinations_def sorted_items_reverse_def rank_step_def py_min_def
  add_combo_def total_capacity_def total_price_def dict_append_def dict_contains_def
  dict_setitem_def

subsection \<open>The generation loops\<close>

lemma generate_outer_no_prices: "generate_outer acc dcs [] lvl = Inr acc"
  by (induction dcs) simp_all

lemma add_all_append:
  "add_all d (xs @ ys) = (case add_all d xs of Inl e \<Rightarrow> Inl e | Inr d' \<Rightarrow> add_all d' ys)"
  by (induction xs arbitrary: d) (simp_all split: sum.splits)

lemma generate_inner_add_all:
  "generate_inner d dc ps lvl =
   add_all d (map (\<lambda>(ucap, uprice). Combo dc ucap uprice lvl) ps)"
  by (induction d dc ps lvl rule: generate_inner.induct) (simp_all split: sum.splits)

lemma generate_outer_add_all:
  "generate_outer d dcs prices lvl = add_all d (candidates prices dcs lvl)"
proof (induction dcs arbitrary: d)
  case Nil
  show ?case by (simp add: candidates_def)
next
  case (Cons dc dcs)
  have "candidates prices (dc # dcs) lvl =
        map (\<lambda>(ucap, uprice). Combo dc ucap uprice lvl) prices
        @ candidates prices dcs lvl"
    by (simp add: candidates_def)
  then show ?case
    by (simp add: add_all_append generate_inner_add_all Cons.IH split: sum.splits)
qed

lemma groups_empty: "groups [] []"
  by (simp add: groups_def bucket_of_def)

lemma add_combo_groups:
  assumes "groups d cs" and "add_combo d c = Inr d'"
  shows "groups d' (cs @ [c])"
proof -
  from assms(2) obtain k0 where k0: "total_capacity c = Inr k0"
    and d': "d' = AList.map_entry k0 (\<lambda>b. b @ [c])
                   (if k0 \<notin> fst ` set d then AList.update k0 [] d else d)"
    by (auto simp: add_combo_def dict_append_def dict_contains_def dict_setitem_def
             split: sum.splits)
  have dist: "distinct (map fst d)" and
    mo: "\<And>k. map_of d k = (if bucket_of cs k = [] then None else Some (bucket_of cs k))"
    using assms(1) by (simp_all add: groups_def)
  have "distinct (map fst d')"
    unfolding d' using dist by (simp add: distinct_map_entry distinct_update)
  moreover have "map_of d' k = (if bucket_of (cs @ [c]) k = [] then None
                               else Some (bucket_of (cs @ [c]) k))" for k
  proof (cases "k = k0")
    case False
    then have "bucket_of (cs @ [c]) k = bucket_of cs k"
      using k0 by (simp add: bucket_of_def)
    moreover have "map_of d' k = map_of d k"
      unfolding d' using False by (simp add: map_of_map_entry update_conv')
    ultimately show ?thesis using mo by simp
  next
    case True
    have b: "bucket_of (cs @ [c]) k0 = bucket_of cs k0 @ [c]"
      using k0 by (simp add: bucket_of_def)
    show ?thesis
    proof (cases "k0 \<in> fst ` set d")
      case True
      then have "map_of d k0 \<noteq> None"
        by (simp add: map_of_eq_None_iff)
      then have "map_of d k0 = Some (bucket_of cs k0)"
        using mo [of k0] by (simp split: if_splits)
      then show ?thesis
        unfolding d' using True \<open>k = k0\<close> b by (simp add: map_of_map_entry)
    next
      case False
      then have "map_of d k0 = None"
        by (simp add: map_of_eq_None_iff)
      then have "bucket_of cs k0 = []"
        using mo [of k0] by (simp split: if_splits)
      then show ?thesis
        unfolding d' using False \<open>k = k0\<close> b by (simp add: map_of_map_entry update_conv')
    qed
  qed
  ultimately show ?thesis by (simp add: groups_def)
qed

lemma add_all_groups:
  "groups d cs \<Longrightarrow> add_all d xs = Inr d' \<Longrightarrow> groups d' (cs @ xs)"
proof (induction xs arbitrary: d cs)
  case Nil
  then show ?case by simp
next
  case (Cons x xs)
  from Cons.prems(2) obtain d1 where d1: "add_combo d x = Inr d1" and r: "add_all d1 xs = Inr d'"
    by (auto split: sum.splits)
  have "groups d1 (cs @ [x])" using add_combo_groups [OF Cons.prems(1) d1] .
  from Cons.IH [OF this r] show ?case by simp
qed

lemma generate_outer_groups:
  "generate_outer [] dcs prices lvl = Inr d \<Longrightarrow> groups d (candidates prices dcs lvl)"
  using add_all_groups [OF groups_empty, of "candidates prices dcs lvl" d]
  by (simp add: generate_outer_add_all)

lemma groups_entry:
  assumes "groups d cs" and "(k, b) \<in> set d"
  shows "b = bucket_of cs k \<and> b \<noteq> []"
proof -
  have dist: "distinct (map fst d)" and
    mo: "map_of d k = (if bucket_of cs k = [] then None else Some (bucket_of cs k))"
    using assms(1) by (simp_all add: groups_def)
  have "map_of d k = Some b"
    using dist assms(2) by simp
  with mo show ?thesis
    by (simp split: if_splits)
qed

lemma groups_key:
  assumes "groups d cs" and "c \<in> set cs" and "total_capacity c = Inr k"
  shows "(k, bucket_of cs k) \<in> set d"
proof -
  have "c \<in> set (bucket_of cs k)" using assms(2,3) by (simp add: bucket_of_def)
  then have "bucket_of cs k \<noteq> []" by auto
  then have "map_of d k = Some (bucket_of cs k)"
    using assms(1) by (simp add: groups_def)
  then show ?thesis by (rule map_of_SomeD)
qed

subsection \<open>One step of the ranking loop\<close>

lemma py_min_Inr:
  assumes "py_min xs = Inr m"
  shows "m \<in> set xs \<and> (\<forall>x\<in>set xs. m \<le> x)"
proof -
  from assms obtain y ys where xs: "xs = y # ys" and m: "m = fold min ys y"
    by (auto simp: py_min_def split: list.splits)
  have "m = Min (set xs)"
    unfolding xs m by (simp only: Min.set_eq_fold)
  moreover have "finite (set xs)" "set xs \<noteq> {}"
    using xs by simp_all
  ultimately show ?thesis
    using Min_in Min_le by blast
qed

lemma py_min_nonempty: "xs \<noteq> [] \<Longrightarrow> \<exists>m. py_min xs = Inr m"
  by (cases xs) (simp_all add: py_min_def)

lemma filter_first:
  "filter P xs = x # ys \<Longrightarrow> \<exists>pre post. xs = pre @ x # post \<and> (\<forall>y\<in>set pre. \<not> P y) \<and> P x"
  by (auto simp: filter_eq_Cons_iff)

lemma rank_step_cases:
  assumes "rank_step acc (k, b) = Inr acc'"
  shows "(acc' = acc \<and> acc \<noteq> [] \<and> (\<forall>x\<in>set b. total_price (last acc) < total_price x))
       \<or> (\<exists>c rest. acc' = acc @ [c] \<and> c \<in> set b
            \<and> (acc \<noteq> [] \<longrightarrow> total_price c \<le> total_price (last acc))
            \<and> (\<forall>x\<in>set b. total_price c \<le> total_price x)
            \<and> (\<forall>x\<in>set b. total_price x = total_price c \<longrightarrow> drive_count c \<le> drive_count x)
            \<and> filter (\<lambda>x. total_price x = total_price c \<and> drive_count x = drive_count c) b
                = c # rest)"
proof -
  from assms obtain mp where mp: "py_min (map total_price b) = Inr mp"
    by (auto simp: rank_step_def split: sum.splits)
  from py_min_Inr [OF mp] have mp_le: "\<forall>x\<in>set b. mp \<le> total_price x"
    by simp
  show ?thesis
  proof (cases "length acc > 0 \<and> mp > total_price (last acc)")
    case True
    then have "acc' = acc" using assms mp by (simp add: rank_step_def)
    with True mp_le show ?thesis by fastforce
  next
    case False
    let ?ch = "filter (\<lambda>c. total_price c = mp) b"
    from assms mp False obtain md where md: "py_min (map drive_count ?ch) = Inr md"
      by (auto simp: rank_step_def Let_def split: sum.splits)
    from assms mp False md obtain c rest where
      t: "filter (\<lambda>c. drive_count c = md) ?ch = c # rest" and acc': "acc' = acc @ [c]"
      by (auto simp: rank_step_def Let_def split: list.splits)
    have "c \<in> set (filter (\<lambda>c. drive_count c = md) ?ch)"
      unfolding t by simp
    then have c: "c \<in> set b" "total_price c = mp" "drive_count c = md"
      by simp_all
    from py_min_Inr [OF md] have md_le: "\<forall>x\<in>set ?ch. md \<le> drive_count x"
      by simp
    have "filter (\<lambda>x. total_price x = total_price c \<and> drive_count x = drive_count c) b
            = c # rest"
      using t c(2,3) by (simp add: conj_commute)
    moreover have "acc \<noteq> [] \<longrightarrow> total_price c \<le> total_price (last acc)"
      using False c(2) by auto
    moreover have "\<forall>x\<in>set b. total_price x = total_price c \<longrightarrow> drive_count c \<le> drive_count x"
      using md_le c(2,3) by simp
    ultimately show ?thesis
      using acc' c mp_le by blast
  qed
qed

lemma rank_step_total:
  assumes "b \<noteq> []"
  shows "\<exists>acc'. rank_step acc (k, b) = Inr acc'"
proof -
  from assms obtain mp where mp: "py_min (map total_price b) = Inr mp"
    using py_min_nonempty [of "map total_price b"] by auto
  let ?ch = "filter (\<lambda>c. total_price c = mp) b"
  from py_min_Inr [OF mp] have "mp \<in> total_price ` set b" by simp
  then have "?ch \<noteq> []" by (auto simp: filter_empty_conv)
  then obtain md where md: "py_min (map drive_count ?ch) = Inr md"
    using py_min_nonempty [of "map drive_count ?ch"] by auto
  from py_min_Inr [OF md] have "md \<in> drive_count ` set ?ch" by simp
  then have "filter (\<lambda>c. drive_count c = md) ?ch \<noteq> []"
    by (auto simp: filter_empty_conv)
  then obtain c rest where "filter (\<lambda>c. drive_count c = md) ?ch = c # rest"
    by (cases "filter (\<lambda>c. drive_count c = md) ?ch") auto
  then show ?thesis
    using mp md by (simp add: rank_step_def Let_def)
qed

lemma rank_loop_total:
  "\<forall>(k, b)\<in>set bs. b \<noteq> [] \<Longrightarrow> \<exists>res. rank_loop acc bs = Inr res"
proof (induction bs arbitrary: acc)
  case Nil
  show ?case by simp
next
  case (Cons kb bs)
  obtain k b where kb: "kb = (k, b)" by (cases kb)
  with Cons.prems have "b \<noteq> []" by simp
  from rank_step_total [OF this] obtain acc' where "rank_step acc (k, b) = Inr acc'"
    by blast
  moreover from Cons.prems have "\<forall>(k, b)\<in>set bs. b \<noteq> []" by simp
  from Cons.IH [OF this] obtain res where "rank_loop acc' bs = Inr res" by blast
  ultimately show ?case using kb by simp
qed

subsection \<open>The sorted buckets\<close>

lemma distinct_map_sort_key:
  "distinct (map f xs) \<Longrightarrow> distinct (map f (sort_key f xs))"
  by (induction xs) (simp_all add: distinct_insort_key)

lemma sorted_items_reverse_sorted:
  assumes "distinct (map fst d)"
  shows "sorted_wrt (\<lambda>x y. fst y < fst x) (sorted_items_reverse d)"
proof -
  have "sorted_wrt (<) (map fst (sort_key fst d))"
    using assms by (simp add: strict_sorted_iff distinct_map_sort_key)
  then have "sorted_wrt (\<lambda>x y. fst x < fst y) (sort_key fst d)"
    by (simp add: sorted_wrt_map)
  then show ?thesis
    by (simp add: sorted_items_reverse_def sorted_wrt_rev)
qed

lemma set_sorted_items_reverse: "set (sorted_items_reverse d) = set d"
  by (simp add: sorted_items_reverse_def)

lemma groups_well_keyed:
  assumes "groups d cs"
  shows "well_keyed (sorted_items_reverse d)"
proof -
  have "distinct (map fst d)" using assms by (simp add: groups_def)
  then have "sorted_wrt (\<lambda>x y. fst y < fst x) (sorted_items_reverse d)"
    by (rule sorted_items_reverse_sorted)
  moreover have "total_capacity c = Inr k" if "(k, b) \<in> set d" and "c \<in> set b" for k b c
  proof -
    from groups_entry [OF assms that(1)] have "b = bucket_of cs k" by simp
    with that(2) show ?thesis by (simp add: bucket_of_def)
  qed
  ultimately show ?thesis
    by (auto simp: well_keyed_def set_sorted_items_reverse)
qed

subsection \<open>The ranking loop\<close>

lemma rank_loop_prefix:
  "rank_loop acc bs = Inr res \<Longrightarrow> \<exists>new. res = acc @ new"
proof (induction bs arbitrary: acc)
  case Nil
  then show ?case by simp
next
  case (Cons kb bs)
  obtain k b where kb: "kb = (k, b)" by (cases kb)
  from Cons.prems kb obtain acc' where st: "rank_step acc (k, b) = Inr acc'"
    and lp: "rank_loop acc' bs = Inr res"
    by (auto split: sum.splits)
  from rank_step_cases [OF st] obtain mid where "acc' = acc @ mid" by auto
  moreover from Cons.IH [OF lp] obtain new where "res = acc' @ new" by blast
  ultimately show ?case by simp
qed

lemma price_ge_last:
  assumes "sorted_wrt price_ge acc" and "a \<in> set acc"
  shows "total_price (last acc) \<le> total_price a"
proof -
  from assms(2) have ne: "acc \<noteq> []" by auto
  then have acc: "acc = butlast acc @ [last acc]" by simp
  show ?thesis
  proof (cases "a = last acc")
    case True
    then show ?thesis by simp
  next
    case False
    with assms(2) acc have "a \<in> set (butlast acc)"
      by (metis Un_iff empty_iff empty_set set_ConsD set_append)
    moreover have "sorted_wrt price_ge (butlast acc @ [last acc])"
      using assms(1) acc by simp
    ultimately show ?thesis
      by (simp add: sorted_wrt_append price_ge_def)
  qed
qed

lemma rank_step_prices:
  assumes "sorted_wrt price_ge acc" and "rank_step acc (k, b) = Inr acc'"
  shows "sorted_wrt price_ge acc'"
  using rank_step_cases [OF assms(2)]
proof (elim disjE exE conjE)
  assume "acc' = acc"
  with assms(1) show ?thesis by simp
next
  fix c rest
  assume acc': "acc' = acc @ [c]"
    and le: "acc \<noteq> [] \<longrightarrow> total_price c \<le> total_price (last acc)"
  have "price_ge a c" if "a \<in> set acc" for a
  proof -
    from that have "acc \<noteq> []" by auto
    with le have "total_price c \<le> total_price (last acc)" by simp
    also have "\<dots> \<le> total_price a" using price_ge_last [OF assms(1) that] .
    finally show ?thesis by (simp add: price_ge_def)
  qed
  with assms(1) show ?thesis
    unfolding acc' by (simp add: sorted_wrt_append)
qed

lemma rank_loop_prices:
  "sorted_wrt price_ge acc \<Longrightarrow> rank_loop acc bs = Inr res \<Longrightarrow> sorted_wrt price_ge res"
proof (induction bs arbitrary: acc)
  case Nil
  then show ?case by simp
next
  case (Cons kb bs)
  obtain k b where kb: "kb = (k, b)" by (cases kb)
  from Cons.prems(2) kb obtain acc' where st: "rank_step acc (k, b) = Inr acc'"
    and lp: "rank_loop acc' bs = Inr res"
    by (auto split: sum.splits)
  from rank_step_prices [OF Cons.prems(1) st] have "sorted_wrt price_ge acc'" .
  from Cons.IH [OF this lp] show ?case .
qed

lemma rank_step_keys:
  assumes "well_keyed ((k, b) # bs)" and "above acc ((k, b) # bs)"
    and "rank_step acc (k, b) = Inr acc'"
  shows "well_keyed bs \<and> above acc' bs"
proof -
  have wk: "well_keyed bs" using assms(1) by (simp add: well_keyed_def)
  have below: "\<forall>(k', b')\<in>set bs. k' < k"
    using assms(1) by (auto simp: well_keyed_def)
  have old: "above acc bs" using assms(2) by (fastforce simp: above_def)
  from rank_step_cases [OF assms(3)] have "acc' = acc \<or> (\<exists>c. acc' = acc @ [c] \<and> c \<in> set b)"
    by blast
  then have "above acc' bs"
  proof
    assume "acc' = acc"
    with old show ?thesis by simp
  next
    assume "\<exists>c. acc' = acc @ [c] \<and> c \<in> set b"
    then obtain c where acc': "acc' = acc @ [c]" and c: "c \<in> set b" by blast
    from assms(1) c have "total_capacity c = Inr k" by (auto simp: well_keyed_def)
    with below old show ?thesis
      unfolding acc' above_def by auto
  qed
  with wk show ?thesis by simp
qed

lemma rank_step_caps:
  assumes "well_keyed ((k, b) # bs)" and "above acc ((k, b) # bs)"
    and "sorted_wrt cap_gt acc" and "rank_step acc (k, b) = Inr acc'"
  shows "sorted_wrt cap_gt acc'"
proof -
  from rank_step_cases [OF assms(4)] have "acc' = acc \<or> (\<exists>c. acc' = acc @ [c] \<and> c \<in> set b)"
    by blast
  then show ?thesis
  proof
    assume "acc' = acc"
    with assms(3) show ?thesis by simp
  next
    assume "\<exists>c. acc' = acc @ [c] \<and> c \<in> set b"
    then obtain c where acc': "acc' = acc @ [c]" and c: "c \<in> set b" by blast
    from assms(1) c have ck: "total_capacity c = Inr k" by (auto simp: well_keyed_def)
    have "cap_gt a c" if "a \<in> set acc" for a
      using assms(2) that ck by (auto simp: above_def cap_gt_def)
    with assms(3) show ?thesis
      unfolding acc' by (simp add: sorted_wrt_append)
  qed
qed

lemma rank_loop_caps:
  "well_keyed bs \<Longrightarrow> above acc bs \<Longrightarrow> sorted_wrt cap_gt acc \<Longrightarrow> rank_loop acc bs = Inr res
   \<Longrightarrow> sorted_wrt cap_gt res \<and> above res []"
proof (induction bs arbitrary: acc)
  case Nil
  then show ?case by simp
next
  case (Cons kb bs)
  obtain k b where kb: "kb = (k, b)" by (cases kb)
  from Cons.prems(4) kb obtain acc' where st: "rank_step acc (k, b) = Inr acc'"
    and lp: "rank_loop acc' bs = Inr res"
    by (auto split: sum.splits)
  from rank_step_keys [OF Cons.prems(1,2) [unfolded kb] st]
  have wk: "well_keyed bs" and ab: "above acc' bs" by simp_all
  from rank_step_caps [OF Cons.prems(1,2) [unfolded kb] Cons.prems(3) st]
  have "sorted_wrt cap_gt acc'" .
  from Cons.IH [OF wk ab this lp] show ?case .
qed

subsection \<open>Capacity of the parity levels\<close>

lemma total_capacity_parity:
  "lvl = ''RAID3'' \<or> lvl = ''RAID5'' \<Longrightarrow>
   total_capacity (Combo dc u p lvl) = Inr (u * of_int (dc - 1))"
  by (auto simp: total_capacity_def)

text \<open>
  C4: for RAID3, RAID4 and RAID5 the total capacity is
  \<open>unit_capacity * (drive_count - 1)\<close>, without failure. The list in line 30 spells the
  second level \<open>RADI4\<close>, so a combination of level \<open>RAID4\<close> falls through every test and
  reaches the \<open>raise\<close> of line 34: for three drives of capacity 1 the code raises instead
  of returning 2.
\<close>

theorem total_capacity_RAID4_raises:
  "total_capacity (Combo 3 1 100 ''RAID4'') = Inl (UnknownRaidLevel ''RAID4'')"
  by (simp add: total_capacity_def)

subsection \<open>Empty ranges and empty catalogues\<close>

text \<open>
  C5, as stated (a minimum above the maximum fails with an error), is false: the range
  of line 77 is empty, no loop body runs and the empty list is returned.
\<close>

theorem inverted_range_example:
  "rank_combinations [(1, 100)] 4 3 ''RAID5'' = Inr []"
  by (simp add: model_defs)

text \<open>
  C5, amended: whenever the minimum drive count exceeds the maximum,
  \<open>rank_combinations\<close> returns the empty list and raises nothing, for every catalogue
  and every level string.
\<close>

theorem inverted_range_returns_empty:
  "mx < mn \<Longrightarrow> rank_combinations prices mn mx lvl = Inr []"
  by (simp add: rank_combinations_def sorted_items_reverse_def)

theorem inverted_range_returns_empty_witness:
  "(3::int) < 4 \<and> rank_combinations [(1, 100)] 4 3 ''RAID9'' = Inr []"
  using inverted_range_returns_empty [of 3 4 "[(1, 100)]" "''RAID9''"] by simp

text \<open>
  C9: on an empty catalogue, every range with minimum at most maximum and every level
  string give the empty list, not an error.
\<close>

theorem empty_catalog_returns_empty:
  "mn \<le> mx \<Longrightarrow> rank_combinations [] mn mx lvl = Inr []"
  by (simp add: rank_combinations_def generate_outer_no_prices sorted_items_reverse_def)

theorem empty_catalog_returns_empty_witness:
  "(3::int) \<le> 5 \<and> rank_combinations [] 3 5 ''RAID9'' = Inr []"
  using empty_catalog_returns_empty [of 3 5 "''RAID9''"] by simp

subsection \<open>Unknown levels\<close>

lemma add_combo_unknown:
  "lvl \<notin> set [''RAID0'', ''RAID1'', ''RAID3'', ''RADI4'', ''RAID5'', ''RAID6''] \<Longrightarrow>
   add_combo acc (Combo dc u p lvl) = Inl (UnknownRaidLevel lvl)"
  by (simp add: add_combo_def total_capacity_def)

text \<open>
  A level string outside the four lists of lines 26 to 32 aborts the first iteration of
  the loops, so no list is returned.
\<close>

lemma unknown_level_raises:
  assumes "lvl \<notin> set [''RAID0'', ''RAID1'', ''RAID3'', ''RADI4'', ''RAID5'', ''RAID6'']"
    and "prices \<noteq> []" and "mn \<le> mx"
  shows "rank_combinations prices mn mx lvl = Inl (UnknownRaidLevel lvl)"
proof -
  obtain u p ps where ps: "prices = (u, p) # ps"
    using \<open>prices \<noteq> []\<close> by (cases prices) auto
  have up: "[mn..mx] = mn # [mn + 1..mx]"
    using \<open>mn \<le> mx\<close> by (simp add: upto_rec1)
  show ?thesis
    unfolding rank_combinations_def up ps
    by (simp add: add_combo_unknown [OF assms(1)])
qed

text \<open>
  C6: a level that is not one of RAID0, RAID1, RAID3, RAID4, RAID5, RAID6 aborts with
  the unsupported-level error. The misspelt entry \<open>RADI4\<close> of line 30 is none of these
  six, yet the code accepts it and returns a ranked list.
\<close>

theorem misspelt_level_accepted:
  "rank_combinations [(1, 100)] 3 3 ''RADI4''
     = Inr [Combo 3 1 100 ''RADI4'']"
  by (simp add: model_defs upto.simps)

subsection \<open>The dominance example\<close>

text \<open>
  C8: for the catalogue \<open>{1.0: 500, 2.0: 150}\<close>, the range [3, 3] and RAID5 the result
  is the single combination of three drives of capacity 2 (total capacity 4, total price
  450). The other candidate (total capacity 2, total price 1500) has a bucket of its own,
  processed second, and the loop body, run on that bucket after the first was accepted,
  leaves the list unchanged.
\<close>

theorem dominance_skip_example:
  "rank_combinations [(1, 500), (2, 150)] 3 3 ''RAID5'' = Inr [Combo 3 2 150 ''RAID5'']
   \<and> total_capacity (Combo 3 2 150 ''RAID5'') = Inr 4
   \<and> total_price (Combo 3 2 150 ''RAID5'') = 450
   \<and> total_capacity (Combo 3 1 500 ''RAID5'') = Inr 2
   \<and> total_price (Combo 3 1 500 ''RAID5'') = 1500
   \<and> generate_outer [] [3..3] [(1, 500), (2, 150)] ''RAID5''
       = Inr [(2, [Combo 3 1 500 ''RAID5'']), (4, [Combo 3 2 150 ''RAID5''])]
   \<and> sorted_items_reverse [(2, [Combo 3 1 500 ''RAID5'']), (4, [Combo 3 2 150 ''RAID5''])]
       = [(4, [Combo 3 2 150 ''RAID5'']), (2, [Combo 3 1 500 ''RAID5''])]
   \<and> rank_step [] (4, [Combo 3 2 150 ''RAID5'']) = Inr [Combo 3 2 150 ''RAID5'']
   \<and> rank_step [Combo 3 2 150 ''RAID5''] (2, [Combo 3 1 500 ''RAID5''])
       = Inr [Combo 3 2 150 ''RAID5'']"
  by (simp add: model_defs upto.simps)

subsection \<open>The result of \<open>rank_combinations\<close>\<close>

lemma set_candidates:
  "set (candidates prices dcs lvl) = {Combo dc u p lvl | dc u p. dc \<in> set dcs \<and> (u, p) \<in> set prices}"
  by (auto simp: candidates_def)

lemma total_capacity_known:
  assumes "lvl \<in> set [''RAID0'', ''RAID1'', ''RAID3'', ''RADI4'', ''RAID5'', ''RAID6'']"
  shows "\<exists>k. total_capacity (Combo dc u p lvl) = Inr k"
  using assms by (auto simp: total_capacity_def)

lemma add_all_total:
  "\<forall>c\<in>set cs. \<exists>k. total_capacity c = Inr k \<Longrightarrow> \<exists>d'. add_all d cs = Inr d'"
proof (induction cs arbitrary: d)
  case Nil
  show ?case by simp
next
  case (Cons c cs)
  from Cons.prems obtain k where "total_capacity c = Inr k" by auto
  then obtain d1 where "add_combo d c = Inr d1" by (simp add: add_combo_def)
  moreover from Cons.prems have "\<forall>c\<in>set cs. \<exists>k. total_capacity c = Inr k" by simp
  from Cons.IH [OF this] obtain d' where "add_all d1 cs = Inr d'" by blast
  ultimately show ?case by simp
qed

lemma rank_combinations_Inr:
  assumes "rank_combinations prices mn mx lvl = Inr res"
  obtains d where "generate_outer [] [mn..mx] prices lvl = Inr d"
    and "groups d (candidates prices [mn..mx] lvl)"
    and "rank_loop [] (sorted_items_reverse d) = Inr res"
proof -
  from assms obtain d where g: "generate_outer [] [mn..mx] prices lvl = Inr d"
    and r: "rank_loop [] (sorted_items_reverse d) = Inr res"
    by (auto simp: rank_combinations_def split: sum.splits)
  from generate_outer_groups [OF g] that g r show ?thesis by blast
qed

lemma rank_combinations_returns:
  assumes "lvl \<in> set [''RAID0'', ''RAID1'', ''RAID3'', ''RADI4'', ''RAID5'', ''RAID6'']"
  shows "\<exists>res. rank_combinations prices mn mx lvl = Inr res"
proof -
  have "\<forall>c\<in>set (candidates prices [mn..mx] lvl). \<exists>k. total_capacity c = Inr k"
    using total_capacity_known [OF assms] by (auto simp: candidates_def)
  from add_all_total [OF this] obtain d where
    g: "generate_outer [] [mn..mx] prices lvl = Inr d"
    by (auto simp: generate_outer_add_all)
  have "\<forall>(k, b)\<in>set (sorted_items_reverse d). b \<noteq> []"
    using groups_entry [OF generate_outer_groups [OF g]]
    by (auto simp: set_sorted_items_reverse)
  from rank_loop_total [OF this] obtain res where
    "rank_loop [] (sorted_items_reverse d) = Inr res" by blast
  with g show ?thesis by (simp add: rank_combinations_def)
qed

lemma above_Nil: "above [] bs"
  by (simp add: above_def)

text \<open>
  C1: along every list that \<open>rank_combinations\<close> returns the total price never
  increases: no later entry costs strictly more than an earlier one. By
  \<open>rank_combinations_returns\<close> a list is returned for every level the code knows.
\<close>

theorem rank_combinations_prices_nonincreasing:
  assumes "rank_combinations prices mn mx lvl = Inr res"
  shows "sorted_wrt (\<lambda>a b. total_price b \<le> total_price a) res"
proof -
  from assms obtain d where "rank_loop [] (sorted_items_reverse d) = Inr res"
    by (rule rank_combinations_Inr)
  then have "sorted_wrt price_ge res"
    using rank_loop_prices [of "[]"] by simp
  then show ?thesis
    by (simp add: price_ge_def [abs_def])
qed

lemma example_four:
  "rank_combinations [(1, 100), (2, 150)] 3 4 ''RAID5''
   = Inr [Combo 4 2 150 ''RAID5'', Combo 3 2 150 ''RAID5'',
          Combo 4 1 100 ''RAID5'', Combo 3 1 100 ''RAID5'']"
  by (simp add: model_defs upto.simps)

theorem rank_combinations_prices_nonincreasing_witness:
  "rank_combinations [(1, 100), (2, 150)] 3 4 ''RAID5''
   = Inr [Combo 4 2 150 ''RAID5'', Combo 3 2 150 ''RAID5'',
          Combo 4 1 100 ''RAID5'', Combo 3 1 100 ''RAID5'']
   \<and> sorted_wrt (\<lambda>a b. total_price b \<le> total_price a)
        [Combo 4 2 150 ''RAID5'', Combo 3 2 150 ''RAID5'',
         Combo 4 1 100 ''RAID5'', Combo 3 1 100 ''RAID5'']"
  using rank_combinations_prices_nonincreasing [OF example_four] example_four by simp

text \<open>
  C2: along every list that \<open>rank_combinations\<close> returns the total capacities (all
  defined) are strictly decreasing.
\<close>

theorem rank_combinations_capacities_decreasing:
  assumes "rank_combinations prices mn mx lvl = Inr res"
  shows "\<exists>caps. map total_capacity res = map Inr caps \<and> sorted_wrt (>) caps"
proof -
  from assms obtain d where gr: "groups d (candidates prices [mn..mx] lvl)"
    and lp: "rank_loop [] (sorted_items_reverse d) = Inr res"
    by (rule rank_combinations_Inr)
  from rank_loop_caps [OF groups_well_keyed [OF gr] above_Nil _ lp]
  have srt: "sorted_wrt cap_gt res" and ab: "above res []" by simp_all
  let ?caps = "map (projr \<circ> total_capacity) res"
  have eq: "total_capacity a = Inr (projr (total_capacity a))" if "a \<in> set res" for a
    using ab that by (auto simp: above_def)
  then have "map total_capacity res = map Inr ?caps"
    by simp
  moreover have "sorted_wrt (\<lambda>a b. projr (total_capacity a) > projr (total_capacity b)) res"
    using srt by (rule sorted_wrt_mono_rel [rotated]) (auto simp: cap_gt_def)
  then have "sorted_wrt (>) ?caps"
    by (simp add: sorted_wrt_map)
  ultimately show ?thesis by blast
qed

theorem rank_combinations_capacities_decreasing_witness:
  "rank_combinations [(1, 100), (2, 150)] 3 4 ''RAID5''
   = Inr [Combo 4 2 150 ''RAID5'', Combo 3 2 150 ''RAID5'',
          Combo 4 1 100 ''RAID5'', Combo 3 1 100 ''RAID5'']
   \<and> (\<exists>caps. map total_capacity
                 [Combo 4 2 150 ''RAID5'', Combo 3 2 150 ''RAID5'',
                  Combo 4 1 100 ''RAID5'', Combo 3 1 100 ''RAID5'']
               = map Inr caps \<and> sorted_wrt (>) caps)"
  using rank_combinations_capacities_decreasing [OF example_four] example_four by simp

lemma rank_step_selected:
  assumes "rank_step acc (k, b) = Inr acc'"
  shows "acc' = acc \<or> (\<exists>c. acc' = acc @ [c] \<and> selected_from b c)"
  using rank_step_cases [OF assms]
proof (elim disjE exE conjE)
  assume "acc' = acc"
  then show ?thesis by simp
next
  fix c rest
  assume acc': "acc' = acc @ [c]" and c: "c \<in> set b"
    and mp: "\<forall>x\<in>set b. total_price c \<le> total_price x"
    and md: "\<forall>x\<in>set b. total_price x = total_price c \<longrightarrow> drive_count c \<le> drive_count x"
    and f: "filter (\<lambda>x. total_price x = total_price c \<and> drive_count x = drive_count c) b
              = c # rest"
  from filter_first [OF f] obtain pre post where "b = pre @ c # post"
    and "\<forall>y\<in>set pre. \<not> (total_price y = total_price c \<and> drive_count y = drive_count c)"
    by blast
  with c mp md have "selected_from b c"
    unfolding selected_from_def by blast
  with acc' show ?thesis by blast
qed

lemma rank_loop_selected:
  "rank_loop acc bs = Inr res \<Longrightarrow> r \<in> set res \<Longrightarrow>
   r \<in> set acc \<or> (\<exists>(k, b)\<in>set bs. selected_from b r)"
proof (induction bs arbitrary: acc)
  case Nil
  then show ?case by simp
next
  case (Cons kb bs)
  obtain k b where kb: "kb = (k, b)" by (cases kb)
  from Cons.prems(1) kb obtain acc' where st: "rank_step acc (k, b) = Inr acc'"
    and lp: "rank_loop acc' bs = Inr res"
    by (auto split: sum.splits)
  from Cons.IH [OF lp Cons.prems(2)]
  have "r \<in> set acc' \<or> (\<exists>(k, b)\<in>set bs. selected_from b r)" .
  then show ?case
  proof
    assume "r \<in> set acc'"
    with rank_step_selected [OF st] kb show ?thesis by auto
  next
    assume "\<exists>(k, b)\<in>set bs. selected_from b r"
    then show ?thesis by auto
  qed
qed

lemma rank_loop_dominated:
  "well_keyed bs \<Longrightarrow> above acc bs \<Longrightarrow> (k, b) \<in> set bs \<Longrightarrow> rank_loop acc bs = Inr res \<Longrightarrow>
   (\<exists>r\<in>set res. r \<in> set b) \<or>
   (\<exists>r\<in>set res. \<exists>kr. total_capacity r = Inr kr \<and> k < kr \<and>
      (\<forall>x\<in>set b. total_price r < total_price x))"
proof (induction bs arbitrary: acc)
  case Nil
  then show ?case by simp
next
  case (Cons kb bs)
  obtain k0 b0 where kb: "kb = (k0, b0)" by (cases kb)
  from Cons.prems(4) kb obtain acc' where st: "rank_step acc (k0, b0) = Inr acc'"
    and lp: "rank_loop acc' bs = Inr res"
    by (auto split: sum.splits)
  from rank_step_keys [OF Cons.prems(1,2) [unfolded kb] st]
  have wk: "well_keyed bs" and ab: "above acc' bs" by simp_all
  from rank_loop_prefix [OF lp] have sub: "set acc' \<subseteq> set res" by auto
  show ?case
  proof (cases "(k, b) = (k0, b0)")
    case False
    with Cons.prems(3) kb have "(k, b) \<in> set bs" by auto
    from Cons.IH [OF wk ab this lp] show ?thesis .
  next
    case True
    then have eq: "k0 = k" "b0 = b" by simp_all
    from rank_step_cases [OF st]
    have "(acc' = acc \<and> acc \<noteq> [] \<and> (\<forall>x\<in>set b. total_price (last acc) < total_price x))
        \<or> (\<exists>c. acc' = acc @ [c] \<and> c \<in> set b)"
      unfolding eq by blast
    then show ?thesis
    proof (elim disjE conjE exE)
      fix c assume "acc' = acc @ [c]" and "c \<in> set b"
      with sub show ?thesis by auto
    next
      assume a: "acc' = acc" "acc \<noteq> []"
        and lt: "\<forall>x\<in>set b. total_price (last acc) < total_price x"
      from a have la: "last acc \<in> set acc" by simp
      with Cons.prems(2) kb eq obtain kr where
        "total_capacity (last acc) = Inr kr" and "k < kr"
        by (auto simp: above_def)
      with la a sub lt show ?thesis by blast
    qed
  qed
qed

text \<open>
  C3: a candidate (a drive count of the range with a catalogue entry) whose total
  capacity is the capacity of no entry of the result is dominated: some entry of the
  result has at least that capacity and at most the candidate's total price.
\<close>

theorem excluded_capacity_dominated:
  assumes "rank_combinations prices mn mx lvl = Inr res"
    and "dc \<in> {mn..mx}" and "(u, p) \<in> set prices"
    and "total_capacity (Combo dc u p lvl) = Inr cap"
    and "\<forall>r\<in>set res. total_capacity r \<noteq> Inr cap"
  shows "\<exists>r\<in>set res. \<exists>cap'. total_capacity r = Inr cap' \<and> cap \<le> cap'
           \<and> total_price r \<le> total_price (Combo dc u p lvl)"
proof -
  let ?cs = "candidates prices [mn..mx] lvl"
  let ?c = "Combo dc u p lvl"
  from assms(1) obtain d where gr: "groups d ?cs"
    and lp: "rank_loop [] (sorted_items_reverse d) = Inr res"
    by (rule rank_combinations_Inr)
  have cin: "?c \<in> set ?cs"
    using assms(2,3) by (auto simp: set_candidates)
  from groups_key [OF gr cin assms(4)]
  have "(cap, bucket_of ?cs cap) \<in> set (sorted_items_reverse d)"
    by (simp add: set_sorted_items_reverse)
  from rank_loop_dominated [OF groups_well_keyed [OF gr] above_Nil this lp]
  have "(\<exists>r\<in>set res. r \<in> set (bucket_of ?cs cap)) \<or>
        (\<exists>r\<in>set res. \<exists>kr. total_capacity r = Inr kr \<and> cap < kr \<and>
           (\<forall>x\<in>set (bucket_of ?cs cap). total_price r < total_price x))" .
  moreover have "\<not> (\<exists>r\<in>set res. r \<in> set (bucket_of ?cs cap))"
    using assms(5) by (auto simp: bucket_of_def)
  moreover have "?c \<in> set (bucket_of ?cs cap)"
    using cin assms(4) by (simp add: bucket_of_def)
  ultimately obtain r kr where "r \<in> set res" "total_capacity r = Inr kr" "cap < kr"
    "total_price r < total_price ?c"
    by blast
  then show ?thesis
    by (intro bexI [of _ r] exI [of _ kr]) simp_all
qed

lemma example_skip:
  "rank_combinations [(1, 500), (2, 150)] 3 3 ''RAID5'' = Inr [Combo 3 2 150 ''RAID5'']"
  by (simp add: model_defs upto.simps)

theorem excluded_capacity_dominated_witness:
  "rank_combinations [(1, 500), (2, 150)] 3 3 ''RAID5'' = Inr [Combo 3 2 150 ''RAID5'']
   \<and> (3::int) \<in> {3..3} \<and> (1, 500) \<in> set [(1, 500), (2, 150 :: real)]
   \<and> total_capacity (Combo 3 1 500 ''RAID5'') = Inr 2
   \<and> total_capacity (Combo 3 2 150 ''RAID5'') \<noteq> Inr 2
   \<and> (\<exists>r cap'. r \<in> set [Combo 3 2 150 ''RAID5''] \<and> total_capacity r = Inr cap' \<and> 2 \<le> cap'
         \<and> total_price r \<le> total_price (Combo 3 1 500 ''RAID5''))"
proof -
  have a: "(3::int) \<in> {3..3}" by simp
  have b: "(1, 500) \<in> set [(1, 500), (2, 150 :: real)]" by simp
  have c: "total_capacity (Combo 3 1 500 ''RAID5'') = Inr 2"
    by (simp add: total_capacity_def)
  have d: "total_capacity (Combo 3 2 150 ''RAID5'') \<noteq> Inr 2"
    by (simp add: total_capacity_def)
  then have d': "\<forall>r\<in>set [Combo 3 2 150 ''RAID5'']. total_capacity r \<noteq> Inr 2"
    by simp
  from excluded_capacity_dominated [OF example_skip a b c d'] example_skip a b c d
  show ?thesis by blast
qed

lemma candidates_Cons:
  "candidates prices (dc # dcs) lvl =
   map (\<lambda>(ucap, uprice). Combo dc ucap uprice lvl) prices @ candidates prices dcs lvl"
  by (simp add: candidates_def)

lemma first_in_block:
  assumes "filter Q (map (\<lambda>(ucap, uprice). Combo dc ucap uprice lvl) prices) = r # rest"
  shows "\<exists>i<length prices. r = Combo dc (fst (prices ! i)) (snd (prices ! i)) lvl \<and>
           (\<forall>j<i. \<not> Q (Combo dc (fst (prices ! j)) (snd (prices ! j)) lvl))"
proof -
  let ?f = "\<lambda>(ucap, uprice). Combo dc ucap uprice lvl"
  from filter_first [OF assms] obtain pre post where
    split: "map ?f prices = pre @ r # post" and no: "\<forall>y\<in>set pre. \<not> Q y"
    by blast
  let ?i = "length pre"
  have len: "length (map ?f prices) = length pre + Suc (length post)"
    unfolding split by simp
  then have i: "?i < length prices" by simp
  have nth: "map ?f prices ! j = Combo dc (fst (prices ! j)) (snd (prices ! j)) lvl"
    if "j < length prices" for j
    using that by (simp add: case_prod_beta)
  have "map ?f prices ! ?i = r"
    unfolding split by simp
  then have r: "r = Combo dc (fst (prices ! ?i)) (snd (prices ! ?i)) lvl"
    using nth [OF i] by simp
  have "\<not> Q (Combo dc (fst (prices ! j)) (snd (prices ! j)) lvl)" if "j < ?i" for j
  proof -
    from that i have j: "j < length prices" by simp
    have "map ?f prices ! j = pre ! j"
      unfolding split using that by (simp add: nth_append)
    then have "Combo dc (fst (prices ! j)) (snd (prices ! j)) lvl = pre ! j"
      using nth [OF j] by simp
    moreover have "pre ! j \<in> set pre" using that by simp
    ultimately show ?thesis using no by simp
  qed
  with i r show ?thesis by blast
qed

lemma first_in_candidates:
  assumes "filter Q (candidates prices dcs lvl) = r # rest"
    and "\<forall>x. Q x \<longrightarrow> drive_count x = d0"
  shows "\<exists>i<length prices. r = Combo d0 (fst (prices ! i)) (snd (prices ! i)) lvl \<and>
           (\<forall>j<i. \<not> Q (Combo d0 (fst (prices ! j)) (snd (prices ! j)) lvl))"
  using assms(1)
proof (induction dcs arbitrary: rest)
  case Nil
  then show ?case by (simp add: candidates_def)
next
  case (Cons dc dcs)
  let ?blk = "map (\<lambda>(ucap, uprice). Combo dc ucap uprice lvl) prices"
  from Cons.prems have app: "filter Q ?blk @ filter Q (candidates prices dcs lvl) = r # rest"
    by (simp add: candidates_Cons)
  show ?case
  proof (cases "filter Q ?blk")
    case Nil
    with app have "filter Q (candidates prices dcs lvl) = r # rest" by simp
    from Cons.IH [OF this] show ?thesis .
  next
    case (Cons r' rest')
    with app have r': "r' = r" by simp
    with Cons have blk: "filter Q ?blk = r # rest'" by simp
    then have "r \<in> set (filter Q ?blk)" by simp
    then have "Q r" and "drive_count r = dc" by auto
    with assms(2) have "dc = d0" by auto
    with first_in_block [OF blk] show ?thesis by simp
  qed
qed

lemma selected_from_filter:
  assumes "selected_from b r"
  shows "\<exists>rest. filter (\<lambda>x. total_price x = total_price r \<and> drive_count x = drive_count r) b
           = r # rest"
proof -
  from assms obtain pre post where "b = pre @ r # post"
    and "\<forall>x\<in>set pre. \<not> (total_price x = total_price r \<and> drive_count x = drive_count r)"
    unfolding selected_from_def by blast
  then show ?thesis by simp
qed

lemma rank_combinations_selected:
  assumes "rank_combinations prices mn mx lvl = Inr res" and "r \<in> set res"
  shows "\<exists>cap. selected_from (bucket_of (candidates prices [mn..mx] lvl) cap) r"
proof -
  from assms(1) obtain d where gr: "groups d (candidates prices [mn..mx] lvl)"
    and lp: "rank_loop [] (sorted_items_reverse d) = Inr res"
    by (rule rank_combinations_Inr)
  from rank_loop_selected [OF lp assms(2)] obtain k b where
    kb: "(k, b) \<in> set d" and sel: "selected_from b r"
    by (auto simp: set_sorted_items_reverse)
  from groups_entry [OF gr kb] sel show ?thesis by auto
qed

text \<open>
  C10: every combination of the result was built from the inputs: its drive count lies
  in the range, its unit capacity and unit price are an entry of the catalogue, and its
  level is the level argument.
\<close>

theorem result_generated_from_inputs:
  assumes "rank_combinations prices mn mx lvl = Inr res" and "r \<in> set res"
  shows "mn \<le> drive_count r \<and> drive_count r \<le> mx
         \<and> (unit_capacity r, unit_price r) \<in> set prices \<and> raid_level r = lvl"
proof -
  from rank_combinations_selected [OF assms] obtain cap where
    "selected_from (bucket_of (candidates prices [mn..mx] lvl) cap) r" ..
  then have "r \<in> set (candidates prices [mn..mx] lvl)"
    by (simp add: selected_from_def bucket_of_def)
  then show ?thesis
    by (auto simp: set_candidates)
qed

theorem result_generated_from_inputs_witness:
  "rank_combinations [(1, 500), (2, 150)] 3 3 ''RAID5'' = Inr [Combo 3 2 150 ''RAID5'']
   \<and> Combo 3 2 150 ''RAID5'' \<in> set [Combo 3 2 150 ''RAID5'']
   \<and> 3 \<le> drive_count (Combo 3 2 150 ''RAID5'') \<and> drive_count (Combo 3 2 150 ''RAID5'') \<le> 3
   \<and> (unit_capacity (Combo 3 2 150 ''RAID5''), unit_price (Combo 3 2 150 ''RAID5''))
       \<in> set [(1, 500), (2, 150)]
   \<and> raid_level (Combo 3 2 150 ''RAID5'') = ''RAID5''"
proof -
  have m: "Combo 3 2 150 ''RAID5'' \<in> set [Combo 3 2 150 ''RAID5'']" by simp
  from result_generated_from_inputs [OF example_skip m] example_skip m
  show ?thesis by blast
qed

text \<open>
  C7: an entry \<open>r\<close> of the result, of total capacity \<open>cap\<close>, is the choice the rule
  describes among the candidates of that capacity: none of them is cheaper; none of those
  of the same total price has fewer drives; and \<open>r\<close> comes from the first catalogue entry
  (position \<open>i\<close> of \<open>prices.items()\<close>) that, with \<open>r\<close>'s drive count, gives that
  capacity and that total price.
\<close>

theorem selection_rule:
  assumes "rank_combinations prices mn mx lvl = Inr res" and "r \<in> set res"
  shows "\<exists>cap i. total_capacity r = Inr cap \<and> i < length prices
           \<and> r = Combo (drive_count r) (fst (prices ! i)) (snd (prices ! i)) lvl
           \<and> (\<forall>dc\<in>{mn..mx}. \<forall>(u, p)\<in>set prices.
                 total_capacity (Combo dc u p lvl) = Inr cap \<longrightarrow>
                   total_price r \<le> total_price (Combo dc u p lvl)
                   \<and> (total_price (Combo dc u p lvl) = total_price r \<longrightarrow> drive_count r \<le> dc))
           \<and> (\<forall>j<i. \<not> (total_capacity
                             (Combo (drive_count r) (fst (prices ! j)) (snd (prices ! j)) lvl)
                           = Inr cap
                         \<and> total_price
                             (Combo (drive_count r) (fst (prices ! j)) (snd (prices ! j)) lvl)
                           = total_price r))"
proof -
  let ?cs = "candidates prices [mn..mx] lvl"
  from rank_combinations_selected [OF assms] obtain cap where
    sel: "selected_from (bucket_of ?cs cap) r" ..
  then have rb: "r \<in> set (bucket_of ?cs cap)"
    and mp: "\<forall>x\<in>set (bucket_of ?cs cap). total_price r \<le> total_price x"
    and md: "\<forall>x\<in>set (bucket_of ?cs cap).
               total_price x = total_price r \<longrightarrow> drive_count r \<le> drive_count x"
    by (simp_all add: selected_from_def)
  from rb have cap: "total_capacity r = Inr cap"
    by (simp add: bucket_of_def)
  have best: "total_price r \<le> total_price (Combo dc u p lvl)
              \<and> (total_price (Combo dc u p lvl) = total_price r \<longrightarrow> drive_count r \<le> dc)"
    if "dc \<in> {mn..mx}" and "(u, p) \<in> set prices"
      and "total_capacity (Combo dc u p lvl) = Inr cap" for dc u p
  proof -
    have "Combo dc u p lvl \<in> set ?cs"
      using that(1,2) by (auto simp: set_candidates)
    with that(3) have "Combo dc u p lvl \<in> set (bucket_of ?cs cap)"
      by (simp add: bucket_of_def)
    with mp md show ?thesis by fastforce
  qed
  let ?Q = "\<lambda>x. total_capacity x = Inr cap
                \<and> total_price x = total_price r \<and> drive_count x = drive_count r"
  from selected_from_filter [OF sel] obtain rest where
    "filter (\<lambda>x. total_price x = total_price r \<and> drive_count x = drive_count r)
       (bucket_of ?cs cap) = r # rest" ..
  then have "filter ?Q ?cs = r # rest"
    by (simp add: bucket_of_def conj_commute conj_left_commute)
  moreover have "\<forall>x. ?Q x \<longrightarrow> drive_count x = drive_count r" by simp
  ultimately obtain i where i: "i < length prices"
    and ri: "r = Combo (drive_count r) (fst (prices ! i)) (snd (prices ! i)) lvl"
    and first: "\<forall>j<i. \<not> ?Q (Combo (drive_count r) (fst (prices ! j)) (snd (prices ! j)) lvl)"
    using first_in_candidates [of ?Q prices "[mn..mx]" lvl r rest "drive_count r"] by blast
  from first have
    "\<forall>j<i. \<not> (total_capacity
                  (Combo (drive_count r) (fst (prices ! j)) (snd (prices ! j)) lvl) = Inr cap
              \<and> total_price
                  (Combo (drive_count r) (fst (prices ! j)) (snd (prices ! j)) lvl)
                = total_price r)"
    by simp
  with cap i ri best show ?thesis
    by blast
qed

lemma example_tie:
  "rank_combinations [(1, 100), (2, 100)] 1 1 ''RAID5'' = Inr [Combo 1 1 100 ''RAID5'']"
  by (simp add: model_defs upto.simps)

theorem selection_rule_witness:
  "rank_combinations [(1 :: real, 100 :: real), (2, 100)] 1 1 ''RAID5'' = Inr [Combo 1 1 100 ''RAID5'']
   \<and> Combo 1 1 100 ''RAID5'' \<in> set [Combo 1 1 100 ''RAID5'']
   \<and> total_capacity (Combo 1 2 100 ''RAID5'') = total_capacity (Combo 1 1 100 ''RAID5'')
   \<and> total_price (Combo 1 2 100 ''RAID5'') = total_price (Combo 1 1 100 ''RAID5'')
   \<and> (\<exists>cap i. total_capacity (Combo 1 1 100 ''RAID5'') = Inr cap
         \<and> i = 0
         \<and> Combo 1 1 100 ''RAID5'' = Combo 1 (fst ([(1 :: real, 100 :: real), (2, 100)] ! i)) (snd ([(1 :: real, 100 :: real), (2, 100)] ! i)) ''RAID5''
         \<and> total_price (Combo 1 1 100 ''RAID5'') \<le> total_price (Combo 1 2 100 ''RAID5''))"
proof -
  let ?r = "Combo 1 1 100 ''RAID5''"
  let ?ps = "[(1 :: real, 100 :: real), (2, 100)]"
  have m: "?r \<in> set [?r]" by simp
  have tie: "total_capacity (Combo 1 2 100 ''RAID5'') = total_capacity ?r"
    "total_price (Combo 1 2 100 ''RAID5'') = total_price ?r"
    by (simp_all add: total_capacity_def total_price_def)
  from selection_rule [OF example_tie m] obtain cap i where
    cap: "total_capacity ?r = Inr cap" and i: "i < length ?ps"
    and ri: "?r = Combo (drive_count ?r) (fst (?ps ! i)) (snd (?ps ! i)) ''RAID5''"
    and best: "\<forall>dc\<in>{1..1}. \<forall>(u, p)\<in>set ?ps.
                 total_capacity (Combo dc u p ''RAID5'') = Inr cap \<longrightarrow>
                   total_price ?r \<le> total_price (Combo dc u p ''RAID5'')
                   \<and> (total_price (Combo dc u p ''RAID5'') = total_price ?r
                        \<longrightarrow> drive_count ?r \<le> dc)"
    by blast
  from i have "i = 0 \<or> i = 1" by auto
  with ri have i0: "i = 0" by auto
  from best cap tie(1) have "total_price ?r \<le> total_price (Combo 1 2 100 ''RAID5'')"
    by simp
  with cap i0 ri example_tie m tie show ?thesis
    by simp
qed


end
